theory Spec2Isabelle
  imports Complex_Main
begin

section \<open>The buffer-stock model's NVFI step (BufferStockModel/nvfi.py)\<close>

text \<open>
  The module solves one period of a consumption-saving problem on a grid of
  permanent income (index \<open>ip\<close>) and cash-on-hand (index \<open>im\<close>).  It holds two
  functions, \<open>obj_bellman\<close> and \<open>solve_bellman\<close>, and one module-level value,
  \<open>opt_bellman\<close>.

  Numbers. The arrays hold IEEE doubles; here they are real numbers, so rounding,
  NaN and the infinities are outside the model.  One operation is given a second
  time as the double computes it: the halving \<open>m / 2\<close> of \<open>solve_bellman\<close>, which
  is exact except where it underflows; \<open>solve_bellman_f64\<close> is the solver with it,
  and equals \<open>solve_bellman\<close> wherever every halving is exact.  The integers \<open>t\<close>,
  \<open>par.Np\<close> and \<open>par.Nm\<close> are Python integers (\<open>int\<close>).

  Collaborators. \<open>utility.func\<close>, \<open>linear_interp.interp_1d\<close> and
  \<open>golden_section_search.create_optimizer\<close> are imported by the module and not
  defined in it; every definition below takes them as the arguments
  \<open>utility_func\<close>, \<open>interp_1d\<close> and \<open>create_optimizer\<close>, and theorems say what they
  assume of them.  They are total functions that change none of their arguments.
\<close>

subsection \<open>Data\<close>

text \<open>
  \<open>par\<close>: the fields the module reads.  The fields of the parameter object that
  only \<open>utility.func\<close> knows (its preference parameters) are the record's
  extension, so \<open>'z par_scheme\<close> is a parameter object with any such fields.
\<close>

record par =
  Np :: int
  Nm :: int
  grid_p :: "real list"
  grid_m :: "real list"
  grid_a :: "real list"
  tol :: real

text \<open>
  \<open>sol\<close>: \<open>sol.v\<close> and \<open>sol.c\<close> are indexed by time, then by \<open>(ip, im)\<close>; \<open>sol.w\<close> by
  \<open>(ip, ia)\<close>.  The three are separate arrays.  The fields carry the prefix
  \<open>sol_\<close> because \<open>c\<close>, \<open>v\<close> and \<open>w\<close> are also names of local variables.
\<close>

type_synonym matrix = "real list list"

record sol =
  sol_v :: "matrix list"
  sol_c :: "matrix list"
  sol_w :: matrix

type_synonym 'z utility = "real \<Rightarrow> 'z par_scheme \<Rightarrow> real"

type_synonym interp = "real list \<Rightarrow> real list \<Rightarrow> real \<Rightarrow> real"

text \<open>An objective takes the choice variable, then the payload \<open>(m, interp_w, par)\<close>.\<close>

type_synonym 'z objective = "real \<Rightarrow> real \<Rightarrow> real list \<Rightarrow> 'z par_scheme \<Rightarrow> real"

text \<open>An optimizer takes \<open>(a, b, tol)\<close>, then the payload, and returns the choice.\<close>

type_synonym 'z optimizer =
  "real \<Rightarrow> real \<Rightarrow> real \<Rightarrow> real \<Rightarrow> real list \<Rightarrow> 'z par_scheme \<Rightarrow> real"

subsection \<open>Indexing and its failure\<close>

text \<open>
  An index out of range raises \<open>IndexError\<close> in Python.  (Compiled by numba
  without bounds checking the access is unchecked instead; in both readings the
  call has not completed normally.)  The arrays are updated in place, so a call
  that raises leaves behind the state it had reached: \<open>Raised e s\<close> carries it.
\<close>

datatype error = IndexError

datatype 's outcome = Done 's | Raised error 's

fun final :: "'s outcome \<Rightarrow> 's" where
  "final (Done s) = s"
| "final (Raised e s) = s"

text \<open>\<open>xs[i]\<close> for a Python integer \<open>i\<close>: a negative index counts from the end.\<close>

definition py_index :: "'a list \<Rightarrow> int \<Rightarrow> nat option" where
  "py_index xs i =
     (if 0 \<le> i \<and> i < int (length xs) then Some (nat i)
      else if i < 0 \<and> - int (length xs) \<le> i then Some (nat (int (length xs) + i))
      else None)"

text \<open>\<open>xs[i]\<close>, \<open>a[i, j]\<close> and \<open>a[i, j] = x\<close> for indices that come from \<open>range\<close>.\<close>

definition getitem :: "'a list \<Rightarrow> nat \<Rightarrow> 'a option" where
  "getitem xs i = (if i < length xs then Some (xs ! i) else None)"

definition getitem2 :: "matrix \<Rightarrow> nat \<Rightarrow> nat \<Rightarrow> real option" where
  "getitem2 a i j = (if i < length a \<and> j < length (a ! i) then Some (a ! i ! j) else None)"

definition setitem2 :: "matrix \<Rightarrow> nat \<Rightarrow> nat \<Rightarrow> real \<Rightarrow> matrix option" where
  "setitem2 a i j x =
     (if i < length a \<and> j < length (a ! i) then Some (a[i := (a ! i)[j := x]]) else None)"

text \<open>\<open>np.fmin\<close> on two numbers.\<close>

definition fmin :: "real \<Rightarrow> real \<Rightarrow> real" where
  "fmin x y = min x y"

subsection \<open>The objective and the optimizer\<close>

definition obj_bellman :: "'z utility \<Rightarrow> interp \<Rightarrow> 'z objective" where
  "obj_bellman utility_func interp_1d c m interp_w par =
     (let a = m - c;
          w = interp_1d (grid_a par) interp_w a;
          value_of_choice = utility_func c par + w
      in - value_of_choice)"

definition opt_bellman ::
  "'z utility \<Rightarrow> interp \<Rightarrow> ('z objective \<Rightarrow> 'z optimizer) \<Rightarrow> 'z optimizer" where
  "opt_bellman utility_func interp_1d create_optimizer =
     create_optimizer (obj_bellman utility_func interp_1d)"

subsection \<open>The solver\<close>

text \<open>
  The body of the loop over \<open>im\<close>, on the pair \<open>(c, v)\<close> of the slices
  \<open>sol.c[t]\<close> and \<open>sol.v[t]\<close>; \<open>w\<close> is \<open>sol.w\<close>.  The row \<open>sol.w[ip]\<close> is read twice
  in the source, with nothing written to \<open>sol.w\<close> in between.
\<close>

definition loop_im_body ::
  "'z utility \<Rightarrow> interp \<Rightarrow> ('z objective \<Rightarrow> 'z optimizer) \<Rightarrow> matrix \<Rightarrow> 'z par_scheme \<Rightarrow>
     nat \<Rightarrow> nat \<Rightarrow> matrix \<times> matrix \<Rightarrow> (matrix \<times> matrix) outcome" where
  "loop_im_body utility_func interp_1d create_optimizer w par ip im cv =
     (case cv of (c, v) \<Rightarrow>
       (case getitem (grid_m par) im of
          None \<Rightarrow> Raised IndexError (c, v)
        | Some m \<Rightarrow>
           (let c_low = fmin (m / 2) (1 / 10 ^ 8);
                c_high = m
            in
             (case getitem w ip of
                None \<Rightarrow> Raised IndexError (c, v)
              | Some w_ip \<Rightarrow>
                 (case setitem2 c ip im
                         (opt_bellman utility_func interp_1d create_optimizer
                            c_low c_high (tol par) m w_ip par) of
                    None \<Rightarrow> Raised IndexError (c, v)
                  | Some c' \<Rightarrow>
                     (case getitem2 c' ip im of
                        None \<Rightarrow> Raised IndexError (c', v)
                      | Some c_ip_im \<Rightarrow>
                         (case setitem2 v ip im
                                 (- obj_bellman utility_func interp_1d c_ip_im m w_ip par) of
                            None \<Rightarrow> Raised IndexError (c', v)
                          | Some v' \<Rightarrow> Done (c', v'))))))))"

text \<open>\<open>for im in ims\<close>: the first iteration that raises ends the loop.\<close>

fun loop_im ::
  "'z utility \<Rightarrow> interp \<Rightarrow> ('z objective \<Rightarrow> 'z optimizer) \<Rightarrow> matrix \<Rightarrow> 'z par_scheme \<Rightarrow>
     nat \<Rightarrow> nat list \<Rightarrow> matrix \<times> matrix \<Rightarrow> (matrix \<times> matrix) outcome" where
  "loop_im utility_func interp_1d create_optimizer w par ip [] cv = Done cv"
| "loop_im utility_func interp_1d create_optimizer w par ip (im # ims) cv =
     (case loop_im_body utility_func interp_1d create_optimizer w par ip im cv of
        Done cv' \<Rightarrow> loop_im utility_func interp_1d create_optimizer w par ip ims cv'
      | Raised e cv' \<Rightarrow> Raised e cv')"

text \<open>The body of the loop over \<open>ip\<close>: \<open>p\<close> is read and not used.\<close>

definition loop_ip_body ::
  "'z utility \<Rightarrow> interp \<Rightarrow> ('z objective \<Rightarrow> 'z optimizer) \<Rightarrow> matrix \<Rightarrow> 'z par_scheme \<Rightarrow>
     nat list \<Rightarrow> nat \<Rightarrow> matrix \<times> matrix \<Rightarrow> (matrix \<times> matrix) outcome" where
  "loop_ip_body utility_func interp_1d create_optimizer w par ims ip cv =
     (case getitem (grid_p par) ip of
        None \<Rightarrow> Raised IndexError cv
      | Some p \<Rightarrow> loop_im utility_func interp_1d create_optimizer w par ip ims cv)"

fun loop_ip ::
  "'z utility \<Rightarrow> interp \<Rightarrow> ('z objective \<Rightarrow> 'z optimizer) \<Rightarrow> matrix \<Rightarrow> 'z par_scheme \<Rightarrow>
     nat list \<Rightarrow> nat list \<Rightarrow> matrix \<times> matrix \<Rightarrow> (matrix \<times> matrix) outcome" where
  "loop_ip utility_func interp_1d create_optimizer w par ims [] cv = Done cv"
| "loop_ip utility_func interp_1d create_optimizer w par ims (ip # ips) cv =
     (case loop_ip_body utility_func interp_1d create_optimizer w par ims ip cv of
        Done cv' \<Rightarrow> loop_ip utility_func interp_1d create_optimizer w par ims ips cv'
      | Raised e cv' \<Rightarrow> Raised e cv')"

text \<open>
  \<open>v = sol.v[t]\<close> and \<open>c = sol.c[t]\<close> are views: what the loops write to them is
  written to \<open>sol\<close>, also when a later iteration raises.
\<close>

definition store_slices :: "sol \<Rightarrow> nat \<Rightarrow> nat \<Rightarrow> matrix \<times> matrix \<Rightarrow> sol" where
  "store_slices s tc tv cv =
     (case cv of (c, v) \<Rightarrow> s\<lparr>sol_v := (sol_v s)[tv := v], sol_c := (sol_c s)[tc := c]\<rparr>)"

text \<open>
  The solver with the order of the iterations as arguments: \<open>ips\<close> for the loop
  over \<open>ip\<close> (a \<open>prange\<close>, whose iterations numba may run in any order), \<open>ims\<close> for
  the loop over \<open>im\<close>.
\<close>

definition solve_bellman_in_order ::
  "'z utility \<Rightarrow> interp \<Rightarrow> ('z objective \<Rightarrow> 'z optimizer) \<Rightarrow> nat list \<Rightarrow> nat list \<Rightarrow>
     int \<Rightarrow> sol \<Rightarrow> 'z par_scheme \<Rightarrow> sol outcome" where
  "solve_bellman_in_order utility_func interp_1d create_optimizer ips ims t s par =
     (case py_index (sol_v s) t of
        None \<Rightarrow> Raised IndexError s
      | Some tv \<Rightarrow>
         (case py_index (sol_c s) t of
            None \<Rightarrow> Raised IndexError s
          | Some tc \<Rightarrow>
              map_outcome (store_slices s tc tv)
                (loop_ip utility_func interp_1d create_optimizer (sol_w s) par ims ips
                   (sol_c s ! tc, sol_v s ! tv))))"

text \<open>\<open>range(n)\<close> for a Python integer \<open>n\<close>; empty when \<open>n \<le> 0\<close>.\<close>

definition range_list :: "int \<Rightarrow> nat list" where
  "range_list n = [0..<nat n]"

text \<open>\<open>solve_bellman\<close> as the source writes it: both loops in increasing order.\<close>

definition solve_bellman ::
  "'z utility \<Rightarrow> interp \<Rightarrow> ('z objective \<Rightarrow> 'z optimizer) \<Rightarrow>
     int \<Rightarrow> sol \<Rightarrow> 'z par_scheme \<Rightarrow> sol outcome" where
  "solve_bellman utility_func interp_1d create_optimizer t s par =
     solve_bellman_in_order utility_func interp_1d create_optimizer
       (range_list (Np par)) (range_list (Nm par)) t s par"

subsection \<open>The solver with the double's halving\<close>

text \<open>
  Rounding to the nearest integer, a tie to the even one: how a double rounds.
\<close>

definition rne :: "real \<Rightarrow> int" where
  "rne x =
     (let n = \<lfloor>x\<rfloor>; r = x - of_int n
      in if r < 1 / 2 then n else if 1 / 2 < r then n + 1 else if even n then n else n + 1)"

text \<open>
  \<open>m / 2\<close> for a double \<open>m\<close>.  The quotient is exact while it is a normal number,
  that is for \<open>|m| \<ge> 2^-1021\<close>; below, it is a multiple of \<open>2^-1074\<close>, the nearest
  one to \<open>m / 2\<close>.  So the smallest positive double, \<open>2^-1074\<close> (about \<open>5e-324\<close>),
  has the half \<open>0\<close>.
\<close>

definition f64_half :: "real \<Rightarrow> real" where
  "f64_half m =
     (if 1 / 2 ^ 1021 \<le> \<bar>m\<bar> then m / 2 else of_int (rne (m * 2 ^ 1073)) / 2 ^ 1074)"

text \<open>The body of the loop over \<open>im\<close> again, with \<open>m / 2\<close> computed so; then the loops.\<close>

definition loop_im_body_f64 ::
  "'z utility \<Rightarrow> interp \<Rightarrow> ('z objective \<Rightarrow> 'z optimizer) \<Rightarrow> matrix \<Rightarrow> 'z par_scheme \<Rightarrow>
     nat \<Rightarrow> nat \<Rightarrow> matrix \<times> matrix \<Rightarrow> (matrix \<times> matrix) outcome" where
  "loop_im_body_f64 utility_func interp_1d create_optimizer w par ip im cv =
     (case cv of (c, v) \<Rightarrow>
       (case getitem (grid_m par) im of
          None \<Rightarrow> Raised IndexError (c, v)
        | Some m \<Rightarrow>
           (let c_low = fmin (f64_half m) (1 / 10 ^ 8);
                c_high = m
            in
             (case getitem w ip of
                None \<Rightarrow> Raised IndexError (c, v)
              | Some w_ip \<Rightarrow>
                 (case setitem2 c ip im
                         (opt_bellman utility_func interp_1d create_optimizer
                            c_low c_high (tol par) m w_ip par) of
                    None \<Rightarrow> Raised IndexError (c, v)
                  | Some c' \<Rightarrow>
                     (case getitem2 c' ip im of
                        None \<Rightarrow> Raised IndexError (c', v)
                      | Some c_ip_im \<Rightarrow>
                         (case setitem2 v ip im
                                 (- obj_bellman utility_func interp_1d c_ip_im m w_ip par) of
                            None \<Rightarrow> Raised IndexError (c', v)
                          | Some v' \<Rightarrow> Done (c', v'))))))))"

fun loop_im_f64 ::
  "'z utility \<Rightarrow> interp \<Rightarrow> ('z objective \<Rightarrow> 'z optimizer) \<Rightarrow> matrix \<Rightarrow> 'z par_scheme \<Rightarrow>
     nat \<Rightarrow> nat list \<Rightarrow> matrix \<times> matrix \<Rightarrow> (matrix \<times> matrix) outcome" where
  "loop_im_f64 utility_func interp_1d create_optimizer w par ip [] cv = Done cv"
| "loop_im_f64 utility_func interp_1d create_optimizer w par ip (im # ims) cv =
     (case loop_im_body_f64 utility_func interp_1d create_optimizer w par ip im cv of
        Done cv' \<Rightarrow> loop_im_f64 utility_func interp_1d create_optimizer w par ip ims cv'
      | Raised e cv' \<Rightarrow> Raised e cv')"

definition loop_ip_body_f64 ::
  "'z utility \<Rightarrow> interp \<Rightarrow> ('z objective \<Rightarrow> 'z optimizer) \<Rightarrow> matrix \<Rightarrow> 'z par_scheme \<Rightarrow>
     nat list \<Rightarrow> nat \<Rightarrow> matrix \<times> matrix \<Rightarrow> (matrix \<times> matrix) outcome" where
  "loop_ip_body_f64 utility_func interp_1d create_optimizer w par ims ip cv =
     (case getitem (grid_p par) ip of
        None \<Rightarrow> Raised IndexError cv
      | Some p \<Rightarrow> loop_im_f64 utility_func interp_1d create_optimizer w par ip ims cv)"

fun loop_ip_f64 ::
  "'z utility \<Rightarrow> interp \<Rightarrow> ('z objective \<Rightarrow> 'z optimizer) \<Rightarrow> matrix \<Rightarrow> 'z par_scheme \<Rightarrow>
     nat list \<Rightarrow> nat list \<Rightarrow> matrix \<times> matrix \<Rightarrow> (matrix \<times> matrix) outcome" where
  "loop_ip_f64 utility_func interp_1d create_optimizer w par ims [] cv = Done cv"
| "loop_ip_f64 utility_func interp_1d create_optimizer w par ims (ip # ips) cv =
     (case loop_ip_body_f64 utility_func interp_1d create_optimizer w par ims ip cv of
        Done cv' \<Rightarrow> loop_ip_f64 utility_func interp_1d create_optimizer w par ims ips cv'
      | Raised e cv' \<Rightarrow> Raised e cv')"

definition solve_bellman_f64 ::
  "'z utility \<Rightarrow> interp \<Rightarrow> ('z objective \<Rightarrow> 'z optimizer) \<Rightarrow>
     int \<Rightarrow> sol \<Rightarrow> 'z par_scheme \<Rightarrow> sol outcome" where
  "solve_bellman_f64 utility_func interp_1d create_optimizer t s par =
     (case py_index (sol_v s) t of
        None \<Rightarrow> Raised IndexError s
      | Some tv \<Rightarrow>
         (case py_index (sol_c s) t of
            None \<Rightarrow> Raised IndexError s
          | Some tc \<Rightarrow>
              map_outcome (store_slices s tc tv)
                (loop_ip_f64 utility_func interp_1d create_optimizer (sol_w s) par
                   (range_list (Nm par)) (range_list (Np par))
                   (sol_c s ! tc, sol_v s ! tv))))"

subsection \<open>Reading a slice\<close>

text \<open>\<open>xs[i]\<close> read as a value, for a Python integer \<open>i\<close>.\<close>

definition py_getitem :: "'a list \<Rightarrow> int \<Rightarrow> 'a option" where
  "py_getitem xs i = map_option (nth xs) (py_index xs i)"

section \<open>Vocabulary of the proofs\<close>

text \<open>
  The two values the body of the inner loop stores at \<open>(ip, im)\<close>, as expressions
  of \<open>sol.w\<close> and \<open>par\<close>: the optimizer's result, and the negated objective there.
\<close>

definition cell_c ::
  "'z utility \<Rightarrow> interp \<Rightarrow> ('z objective \<Rightarrow> 'z optimizer) \<Rightarrow> matrix \<Rightarrow> 'z par_scheme \<Rightarrow>
     nat \<Rightarrow> nat \<Rightarrow> real" where
  "cell_c U I CO w par ip im =
     opt_bellman U I CO (fmin (grid_m par ! im / 2) (1 / 10 ^ 8)) (grid_m par ! im) (tol par)
       (grid_m par ! im) (w ! ip) par"

definition cell_v ::
  "'z utility \<Rightarrow> interp \<Rightarrow> ('z objective \<Rightarrow> 'z optimizer) \<Rightarrow> matrix \<Rightarrow> 'z par_scheme \<Rightarrow>
     nat \<Rightarrow> nat \<Rightarrow> real" where
  "cell_v U I CO w par ip im =
     - obj_bellman U I (cell_c U I CO w par ip im) (grid_m par ! im) (w ! ip) par"

text \<open>
  The indices the body of the inner loop uses at \<open>(ip, im)\<close> are in range, and
  the indices one iteration of the outer loop uses are, and those a whole call uses.
\<close>

definition in_range :: "matrix \<Rightarrow> 'z par_scheme \<Rightarrow> matrix \<Rightarrow> matrix \<Rightarrow> nat \<Rightarrow> nat \<Rightarrow> bool" where
  "in_range w par c v ip im \<longleftrightarrow>
     im < length (grid_m par) \<and> ip < length w \<and>
     ip < length c \<and> im < length (c ! ip) \<and> ip < length v \<and> im < length (v ! ip)"

definition row_ok :: "matrix \<Rightarrow> 'z par_scheme \<Rightarrow> matrix \<Rightarrow> matrix \<Rightarrow> nat list \<Rightarrow> nat \<Rightarrow> bool" where
  "row_ok w par c v ims ip \<longleftrightarrow>
     ip < length (grid_p par) \<and> (\<forall>j \<in> set ims. in_range w par c v ip j)"


text \<open>
  An optimizer that takes its lower bound from the halved payload: with it
  \<open>solve_bellman\<close> is \<open>solve_bellman_f64\<close>, so what is proved of the one loop holds
  of the other.
\<close>

definition f64_bracket :: "('z objective \<Rightarrow> 'z optimizer) \<Rightarrow> 'z objective \<Rightarrow> 'z optimizer" where
  "f64_bracket CO obj a b e m w par = CO obj (fmin (f64_half m) (1 / 10 ^ 8)) b e m w par"

subsection \<open>A concrete instance\<close>

text \<open>
  One permanent-income level, cash-on-hand \<open>1, 5, 10\<close>, the linear utility
  \<open>2 c\<close>, a continuation value \<open>1 + a / 2\<close> given by its values at the two ends
  of the asset grid, an interpolation through those two points, and an
  optimizer that returns the better end of its bracket.  Value is increasing in
  consumption here, so the upper end \<open>m\<close> is the bracket's maximizer, and the
  value there is \<open>2 m + 1\<close>.
\<close>

definition example_utility :: "unit utility" where
  "example_utility c par = 2 * c"

definition example_interp :: interp where
  "example_interp grid vals a =
     vals ! 0 + (vals ! 1 - vals ! 0) * (a - grid ! 0) / (grid ! 1 - grid ! 0)"

definition example_optimizer :: "unit objective \<Rightarrow> unit optimizer" where
  "example_optimizer obj a b tolerance m w par = (if obj b m w par \<le> obj a m w par then b else a)"

definition example_par :: par where
  "example_par = \<lparr>Np = 1, Nm = 3, grid_p = [1], grid_m = [1, 5, 10], grid_a = [0, 10],
     tol = 1 / 10 ^ 6\<rparr>"

definition example_sol :: sol where
  "example_sol = \<lparr>sol_v = [[[0, 0, 0]]], sol_c = [[[0, 0, 0]]], sol_w = [[1, 6]]\<rparr>"

definition example_result :: sol where
  "example_result = \<lparr>sol_v = [[[3, 11, 21]]], sol_c = [[[1, 5, 10]]], sol_w = [[1, 6]]\<rparr>"

text \<open>A container with two periods, the first of which holds other values.\<close>

definition example_sol2 :: sol where
  "example_sol2 = \<lparr>sol_v = [[[7, 7, 7]], [[0, 0, 0]]], sol_c = [[[8, 8, 8]], [[0, 0, 0]]],
     sol_w = [[1, 6]]\<rparr>"

definition example_result2 :: sol where
  "example_result2 = \<lparr>sol_v = [[[7, 7, 7]], [[3, 11, 21]]], sol_c = [[[8, 8, 8]], [[1, 5, 10]]],
     sol_w = [[1, 6]]\<rparr>"

text \<open>
  A second parameter object: another \<open>grid_p\<close>, and \<open>grid_m\<close> in another order.
\<close>

definition example_par2 :: par where
  "example_par2 = \<lparr>Np = 1, Nm = 3, grid_p = [42], grid_m = [10, 1, 5], grid_a = [0, 10],
     tol = 1 / 10 ^ 6\<rparr>"

definition example_result3 :: sol where
  "example_result3 = \<lparr>sol_v = [[[7, 7, 7]], [[21, 3, 11]]], sol_c = [[[8, 8, 8]], [[10, 1, 5]]],
     sol_w = [[1, 6]]\<rparr>"




text \<open>
  One cell whose cash-on-hand is the smallest positive double, and an optimizer
  that returns the lower end of its bracket.
\<close>

definition f64_min :: real where
  "f64_min = 1 / 2 ^ 1074"

definition lower_end_optimizer :: "unit objective \<Rightarrow> unit optimizer" where
  "lower_end_optimizer obj a b tolerance m w par = a"

definition smallest_par :: par where
  "smallest_par = \<lparr>Np = 1, Nm = 1, grid_p = [1], grid_m = [f64_min], grid_a = [0, 10],
     tol = 1 / 10 ^ 6\<rparr>"

definition smallest_sol :: sol where
  "smallest_sol = \<lparr>sol_v = [[[0]]], sol_c = [[[1]]], sol_w = [[1, 1]]\<rparr>"

definition smallest_result :: sol where
  "smallest_result = \<lparr>sol_v = [[[1]]], sol_c = [[[0]]], sol_w = [[1, 1]]\<rparr>"

section \<open>The loops\<close>

subsection \<open>Indexing\<close>

lemma py_index_less: "py_index xs i = Some k \<Longrightarrow> k < length xs"
  by (auto simp: py_index_def split: if_splits)

lemma py_index_same_length: "length ys = length xs \<Longrightarrow> py_index ys i = py_index xs i"
  by (simp add: py_index_def)

lemma py_getitem_update:
  "py_index xs i = Some k \<Longrightarrow> py_getitem (xs[k := y]) i = Some y"
  using py_index_less [of xs i k]
  by (simp add: py_getitem_def py_index_same_length [of "xs[k := y]" xs])


lemma range_list_mem: "i \<in> set (range_list n) \<longleftrightarrow> int i < n"
  by (auto simp: range_list_def)

lemma range_list_simps:
  "range_list 0 = []" "range_list 1 = [0]" "range_list 2 = [0, 1]" "range_list 3 = [0, 1, 2]"
  by (simp_all add: range_list_def upt_rec)

lemma map_length_update2:
  "map length (c[ip := (c ! ip)[im := x]]) = map length c"
  by (cases "ip < length c") (auto simp: list_eq_iff_nth_eq nth_list_update)

lemma nth_update2:
  "ip < length c \<Longrightarrow> im < length (c ! ip) \<Longrightarrow>
   c[ip := (c ! ip)[im := x]] ! i ! j = (if i = ip \<and> j = im then x else c ! i ! j)"
  by (auto simp: nth_list_update)

lemma in_range_update:
  "map length c' = map length c \<Longrightarrow> map length v' = map length v \<Longrightarrow>
   in_range w par c' v' ip im = in_range w par c v ip im"
proof -
  assume c: "map length c' = map length c" and v: "map length v' = map length v"
  have lc: "length c' = length c" using c by (metis length_map)
  have lv: "length v' = length v" using v by (metis length_map)
  have rc: "ip < length c \<Longrightarrow> length (c' ! ip) = length (c ! ip)"
    using c lc by (metis nth_map)
  have rv: "ip < length v \<Longrightarrow> length (v' ! ip) = length (v ! ip)"
    using v lv by (metis nth_map)
  show ?thesis
    unfolding in_range_def using lc lv rc rv by auto
qed

lemma row_ok_update:
  assumes "map length c' = map length c" "map length v' = map length v"
  shows "row_ok w par c' v' ims ip = row_ok w par c v ims ip"
  unfolding row_ok_def using in_range_update [OF assms, of w par ip] by simp

subsection \<open>The loop over \<open>im\<close>\<close>

lemma loop_im_body_Done_iff:
  "loop_im_body U I CO w par ip im (c, v) = Done (c', v') \<longleftrightarrow>
     in_range w par c v ip im \<and>
     c' = c[ip := (c ! ip)[im := cell_c U I CO w par ip im]] \<and>
     v' = v[ip := (v ! ip)[im := cell_v U I CO w par ip im]]"
  by (auto simp: loop_im_body_def getitem_def getitem2_def setitem2_def in_range_def
      cell_c_def cell_v_def Let_def split: option.splits if_splits)

text \<open>
  A loop over \<open>im\<close> that completes has kept the shapes, found every index in
  range, and changed row \<open>ip\<close> at the columns of \<open>ims\<close> and nothing else.
\<close>

lemma loop_im_Done:
  "loop_im U I CO w par ip ims (c, v) = Done (c', v') \<Longrightarrow>
     map length c' = map length c \<and> map length v' = map length v \<and>
     (\<forall>j \<in> set ims. in_range w par c v ip j) \<and>
     (\<forall>i j. c' ! i ! j = (if i = ip \<and> j \<in> set ims then cell_c U I CO w par ip j else c ! i ! j)) \<and>
     (\<forall>i j. v' ! i ! j = (if i = ip \<and> j \<in> set ims then cell_v U I CO w par ip j else v ! i ! j))"
proof (induction ims arbitrary: c v)
  case Nil
  then show ?case by simp
next
  case (Cons im ims)
  from Cons.prems obtain c1 v1 where
    body: "loop_im_body U I CO w par ip im (c, v) = Done (c1, v1)" and
    rest: "loop_im U I CO w par ip ims (c1, v1) = Done (c', v')"
    by (auto split: outcome.splits)
  from body have r: "in_range w par c v ip im"
    and c1: "c1 = c[ip := (c ! ip)[im := cell_c U I CO w par ip im]]"
    and v1: "v1 = v[ip := (v ! ip)[im := cell_v U I CO w par ip im]]"
    by (simp_all add: loop_im_body_Done_iff)
  have shape1: "map length c1 = map length c" "map length v1 = map length v"
    by (simp_all add: c1 v1 map_length_update2)
  note IH = Cons.IH [OF rest]
  have s: "map length c' = map length c" "map length v' = map length v"
    using IH shape1 by simp_all
  have "in_range w par c v ip j" if "j \<in> set ims" for j
    using IH that in_range_update [OF shape1, of w par ip j] by blast
  with r have rng: "\<forall>j \<in> set (im # ims). in_range w par c v ip j"
    by simp
  have b: "ip < length c" "im < length (c ! ip)" "ip < length v" "im < length (v ! ip)"
    using r by (simp_all add: in_range_def)
  have cc: "\<forall>i j. c' ! i ! j =
      (if i = ip \<and> j \<in> set (im # ims) then cell_c U I CO w par ip j else c ! i ! j)"
  proof (intro allI)
    fix i j
    have "c' ! i ! j = (if i = ip \<and> j \<in> set ims then cell_c U I CO w par ip j else c1 ! i ! j)"
      using IH by blast
    moreover have "c1 ! i ! j = (if i = ip \<and> j = im then cell_c U I CO w par ip im else c ! i ! j)"
      unfolding c1 by (rule nth_update2 [OF b(1,2)])
    ultimately show "c' ! i ! j =
      (if i = ip \<and> j \<in> set (im # ims) then cell_c U I CO w par ip j else c ! i ! j)"
      by auto
  qed
  have vv: "\<forall>i j. v' ! i ! j =
      (if i = ip \<and> j \<in> set (im # ims) then cell_v U I CO w par ip j else v ! i ! j)"
  proof (intro allI)
    fix i j
    have "v' ! i ! j = (if i = ip \<and> j \<in> set ims then cell_v U I CO w par ip j else v1 ! i ! j)"
      using IH by blast
    moreover have "v1 ! i ! j = (if i = ip \<and> j = im then cell_v U I CO w par ip im else v ! i ! j)"
      unfolding v1 by (rule nth_update2 [OF b(3,4)])
    ultimately show "v' ! i ! j =
      (if i = ip \<and> j \<in> set (im # ims) then cell_v U I CO w par ip j else v ! i ! j)"
      by auto
  qed
  from s rng cc vv show ?case by blast
qed

lemma loop_im_completes:
  "\<forall>j \<in> set ims. in_range w par c v ip j \<Longrightarrow>
   \<exists>cv'. loop_im U I CO w par ip ims (c, v) = Done cv'"
proof (induction ims arbitrary: c v)
  case Nil
  then show ?case by simp
next
  case (Cons im ims)
  let ?c1 = "c[ip := (c ! ip)[im := cell_c U I CO w par ip im]]"
  let ?v1 = "v[ip := (v ! ip)[im := cell_v U I CO w par ip im]]"
  have body: "loop_im_body U I CO w par ip im (c, v) = Done (?c1, ?v1)"
    using Cons.prems by (simp add: loop_im_body_Done_iff)
  have "in_range w par ?c1 ?v1 ip j = in_range w par c v ip j" for j
    by (rule in_range_update) (rule map_length_update2)+
  then have "\<forall>j \<in> set ims. in_range w par ?c1 ?v1 ip j"
    using Cons.prems by simp
  from Cons.IH [OF this] show ?case
    by (simp add: body)
qed

subsection \<open>The loop over \<open>ip\<close>\<close>

lemma loop_ip_body_Done:
  "loop_ip_body U I CO w par ims ip cv = Done cv' \<longleftrightarrow>
     ip < length (grid_p par) \<and> loop_im U I CO w par ip ims cv = Done cv'"
  by (simp add: loop_ip_body_def getitem_def)

lemma loop_ip_Done:
  "loop_ip U I CO w par ims ips (c, v) = Done (c', v') \<Longrightarrow>
     map length c' = map length c \<and> map length v' = map length v \<and>
     (\<forall>i \<in> set ips. row_ok w par c v ims i) \<and>
     (\<forall>i j. c' ! i ! j =
        (if i \<in> set ips \<and> j \<in> set ims then cell_c U I CO w par i j else c ! i ! j)) \<and>
     (\<forall>i j. v' ! i ! j =
        (if i \<in> set ips \<and> j \<in> set ims then cell_v U I CO w par i j else v ! i ! j))"
proof (induction ips arbitrary: c v)
  case Nil
  then show ?case by simp
next
  case (Cons ip ips)
  from Cons.prems obtain c1 v1 where
    body: "loop_ip_body U I CO w par ims ip (c, v) = Done (c1, v1)" and
    rest: "loop_ip U I CO w par ims ips (c1, v1) = Done (c', v')"
    by (auto split: outcome.splits)
  from body have p: "ip < length (grid_p par)"
    and row: "loop_im U I CO w par ip ims (c, v) = Done (c1, v1)"
    by (simp_all add: loop_ip_body_Done)
  note R = loop_im_Done [OF row]
  note IH = Cons.IH [OF rest]
  have shape1: "map length c1 = map length c" "map length v1 = map length v"
    using R by simp_all
  have s: "map length c' = map length c" "map length v' = map length v"
    using IH shape1 by simp_all
  have "row_ok w par c v ims ip"
    using p R by (simp add: row_ok_def)
  moreover have "row_ok w par c v ims i" if "i \<in> set ips" for i
    using IH that row_ok_update [OF shape1, of w par ims i] by blast
  ultimately have rng: "\<forall>i \<in> set (ip # ips). row_ok w par c v ims i"
    by simp
  have cc: "\<forall>i j. c' ! i ! j =
      (if i \<in> set (ip # ips) \<and> j \<in> set ims then cell_c U I CO w par i j else c ! i ! j)"
  proof (intro allI)
    fix i j
    have "c' ! i ! j =
        (if i \<in> set ips \<and> j \<in> set ims then cell_c U I CO w par i j else c1 ! i ! j)"
      using IH by blast
    moreover have "c1 ! i ! j =
        (if i = ip \<and> j \<in> set ims then cell_c U I CO w par ip j else c ! i ! j)"
      using R by blast
    ultimately show "c' ! i ! j =
      (if i \<in> set (ip # ips) \<and> j \<in> set ims then cell_c U I CO w par i j else c ! i ! j)"
      by auto
  qed
  have vv: "\<forall>i j. v' ! i ! j =
      (if i \<in> set (ip # ips) \<and> j \<in> set ims then cell_v U I CO w par i j else v ! i ! j)"
  proof (intro allI)
    fix i j
    have "v' ! i ! j =
        (if i \<in> set ips \<and> j \<in> set ims then cell_v U I CO w par i j else v1 ! i ! j)"
      using IH by blast
    moreover have "v1 ! i ! j =
        (if i = ip \<and> j \<in> set ims then cell_v U I CO w par ip j else v ! i ! j)"
      using R by blast
    ultimately show "v' ! i ! j =
      (if i \<in> set (ip # ips) \<and> j \<in> set ims then cell_v U I CO w par i j else v ! i ! j)"
      by auto
  qed
  from s rng cc vv show ?case by blast
qed

lemma loop_ip_completes:
  "\<forall>i \<in> set ips. row_ok w par c v ims i \<Longrightarrow>
   \<exists>cv'. loop_ip U I CO w par ims ips (c, v) = Done cv'"
proof (induction ips arbitrary: c v)
  case Nil
  then show ?case by simp
next
  case (Cons ip ips)
  have "row_ok w par c v ims ip"
    using Cons.prems by simp
  then have p: "ip < length (grid_p par)" and "\<forall>j \<in> set ims. in_range w par c v ip j"
    by (simp_all add: row_ok_def)
  from loop_im_completes [OF this(2)] obtain c1 v1 where
    row: "loop_im U I CO w par ip ims (c, v) = Done (c1, v1)"
    by (metis surj_pair)
  have body: "loop_ip_body U I CO w par ims ip (c, v) = Done (c1, v1)"
    using p row by (simp add: loop_ip_body_Done)
  have shape1: "map length c1 = map length c" "map length v1 = map length v"
    using loop_im_Done [OF row] by simp_all
  have "row_ok w par c1 v1 ims i = row_ok w par c v ims i" for i
    by (rule row_ok_update [OF shape1])
  then have "\<forall>i \<in> set ips. row_ok w par c1 v1 ims i"
    using Cons.prems by simp
  from Cons.IH [OF this] show ?case
    by (simp add: body)
qed

subsection \<open>The call\<close>

lemma solve_Done:
  assumes "solve_bellman_in_order U I CO ips ims t s par = Done s'"
  obtains tc tv c' v' where
    "py_index (sol_c s) t = Some tc" "py_index (sol_v s) t = Some tv"
    "loop_ip U I CO (sol_w s) par ims ips (sol_c s ! tc, sol_v s ! tv) = Done (c', v')"
    "s' = s\<lparr>sol_v := (sol_v s)[tv := v'], sol_c := (sol_c s)[tc := c']\<rparr>"
proof -
  from assms obtain tv where tv: "py_index (sol_v s) t = Some tv"
    by (auto simp: solve_bellman_in_order_def split: option.splits)
  from assms tv obtain tc where tc: "py_index (sol_c s) t = Some tc"
    by (auto simp: solve_bellman_in_order_def split: option.splits)
  from assms tv tc obtain cv' where
    l: "loop_ip U I CO (sol_w s) par ims ips (sol_c s ! tc, sol_v s ! tv) = Done cv'" and
    s': "s' = store_slices s tc tv cv'"
    by (cases "loop_ip U I CO (sol_w s) par ims ips (sol_c s ! tc, sol_v s ! tv)")
       (auto simp: solve_bellman_in_order_def)
  obtain c' v' where cv': "cv' = (c', v')"
    by (cases cv')
  show thesis
    using that [of tc tv c' v'] tc tv l s' by (simp add: cv' store_slices_def)
qed

text \<open>What a completed call leaves in the two slices.\<close>

lemma solve_Done_cells:
  assumes run: "solve_bellman_in_order U I CO ips ims t s par = Done s'"
  obtains c v c' v' where
    "py_getitem (sol_c s) t = Some c" "py_getitem (sol_v s) t = Some v"
    "py_getitem (sol_c s') t = Some c'" "py_getitem (sol_v s') t = Some v'"
    "sol_w s' = sol_w s"
    "map length c' = map length c" "map length v' = map length v"
    "\<forall>i \<in> set ips. row_ok (sol_w s) par c v ims i"
    "\<forall>i j. c' ! i ! j =
        (if i \<in> set ips \<and> j \<in> set ims then cell_c U I CO (sol_w s) par i j else c ! i ! j)"
    "\<forall>i j. v' ! i ! j =
        (if i \<in> set ips \<and> j \<in> set ims then cell_v U I CO (sol_w s) par i j else v ! i ! j)"
proof -
  from run obtain tc tv c' v' where
    tc: "py_index (sol_c s) t = Some tc" and tv: "py_index (sol_v s) t = Some tv" and
    l: "loop_ip U I CO (sol_w s) par ims ips (sol_c s ! tc, sol_v s ! tv) = Done (c', v')" and
    s': "s' = s\<lparr>sol_v := (sol_v s)[tv := v'], sol_c := (sol_c s)[tc := c']\<rparr>"
    by (rule solve_Done)
  note L = loop_ip_Done [OF l]
  show thesis
  proof (rule that [of "sol_c s ! tc" "sol_v s ! tv" c' v'])
    show "py_getitem (sol_c s) t = Some (sol_c s ! tc)"
      by (simp add: py_getitem_def tc)
    show "py_getitem (sol_v s) t = Some (sol_v s ! tv)"
      by (simp add: py_getitem_def tv)
    show "py_getitem (sol_c s') t = Some c'"
      by (simp add: s' py_getitem_update [OF tc])
    show "py_getitem (sol_v s') t = Some v'"
      by (simp add: s' py_getitem_update [OF tv])
    show "sol_w s' = sol_w s"
      by (simp add: s')
  qed (use L in blast)+
qed

lemma final_map_outcome: "final (map_outcome f r) = f (final r)"
  by (cases r) simp_all

lemma solve_final_cases:
  obtains "final (solve_bellman_in_order U I CO ips ims t s par) = s"
  | tc tv c' v' where "py_index (sol_c s) t = Some tc" "py_index (sol_v s) t = Some tv"
      "final (solve_bellman_in_order U I CO ips ims t s par) =
         s\<lparr>sol_v := (sol_v s)[tv := v'], sol_c := (sol_c s)[tc := c']\<rparr>"
proof (cases "py_index (sol_v s) t")
  case None
  then show ?thesis
    using that(1) by (simp add: solve_bellman_in_order_def)
next
  case tv: (Some tv)
  show ?thesis
  proof (cases "py_index (sol_c s) t")
    case None
    then show ?thesis
      using that(1) tv by (simp add: solve_bellman_in_order_def)
  next
    case tc: (Some tc)
    obtain c' v' where
      "final (loop_ip U I CO (sol_w s) par ims ips (sol_c s ! tc, sol_v s ! tv)) = (c', v')"
      by (metis surj_pair)
    then show ?thesis
      using that(2) [OF tc tv, of c' v'] tv tc
      by (simp add: solve_bellman_in_order_def final_map_outcome store_slices_def)
  qed
qed


text \<open>The cells of a completed \<open>solve_bellman\<close>, for \<open>(ip, im)\<close> in \<open>[0, Np) \<times> [0, Nm)\<close>.\<close>

lemma solve_bellman_c_cell:
  assumes run: "solve_bellman U I CO t s par = Done s'"
    and c': "py_getitem (sol_c s') t = Some c'"
    and ip: "int ip < Np par" and im: "int im < Nm par"
  shows "c' ! ip ! im = cell_c U I CO (sol_w s) par ip im"
    and "im < length (grid_m par)"
    and "ip < length (sol_w s)"
proof -
  from run have "solve_bellman_in_order U I CO (range_list (Np par)) (range_list (Nm par))
      t s par = Done s'"
    by (simp add: solve_bellman_def)
  then obtain c v c0 where
    c0: "py_getitem (sol_c s') t = Some c0" and
    ok: "\<forall>i \<in> set (range_list (Np par)).
           row_ok (sol_w s) par c v (range_list (Nm par)) i" and
    cc: "\<forall>i j. c0 ! i ! j =
        (if i \<in> set (range_list (Np par)) \<and> j \<in> set (range_list (Nm par))
         then cell_c U I CO (sol_w s) par i j else c ! i ! j)"
    by (rule solve_Done_cells)
  have eq: "c0 = c'"
    using c0 c' by simp
  have mem: "ip \<in> set (range_list (Np par))" "im \<in> set (range_list (Nm par))"
    using ip im by (simp_all add: range_list_mem)
  show "c' ! ip ! im = cell_c U I CO (sol_w s) par ip im"
    using cc mem eq by simp
  show "im < length (grid_m par)" "ip < length (sol_w s)"
    using ok mem by (auto simp: row_ok_def in_range_def)
qed

lemma solve_bellman_v_cell:
  assumes run: "solve_bellman U I CO t s par = Done s'"
    and v': "py_getitem (sol_v s') t = Some v'"
    and ip: "int ip < Np par" and im: "int im < Nm par"
  shows "v' ! ip ! im = cell_v U I CO (sol_w s) par ip im"
proof -
  from run have "solve_bellman_in_order U I CO (range_list (Np par)) (range_list (Nm par))
      t s par = Done s'"
    by (simp add: solve_bellman_def)
  then obtain v v0 where
    v0: "py_getitem (sol_v s') t = Some v0" and
    vv: "\<forall>i j. v0 ! i ! j =
        (if i \<in> set (range_list (Np par)) \<and> j \<in> set (range_list (Nm par))
         then cell_v U I CO (sol_w s) par i j else v ! i ! j)"
    by (rule solve_Done_cells)
  have eq: "v0 = v'"
    using v0 v' by simp
  have mem: "ip \<in> set (range_list (Np par))" "im \<in> set (range_list (Nm par))"
    using ip im by (simp_all add: range_list_mem)
  show ?thesis
    using vv mem eq by simp
qed

lemma solve_bellman_keeps_w:
  "solve_bellman U I CO t s par = Done s' \<Longrightarrow> sol_w s' = sol_w s"
  unfolding solve_bellman_def by (erule solve_Done_cells)

subsection \<open>The double's halving\<close>

lemma rne_bounds: "x - 1 / 2 \<le> of_int (rne x)" "of_int (rne x) \<le> x + 1 / 2"
  unfolding rne_def Let_def by (auto; linarith)+

lemma rne_nonneg: "0 \<le> x \<Longrightarrow> 0 \<le> rne x"
  unfolding rne_def Let_def by (auto simp: zero_le_floor)

lemma rne_le_double:
  assumes "0 \<le> x"
  shows "of_int (rne x) \<le> 2 * x"
proof (cases "x \<le> 1 / 2")
  case True
  then have "\<lfloor>x\<rfloor> = 0"
    using assms by (simp add: floor_eq_iff)
  then have "rne x = 0"
    using True by (simp add: rne_def)
  then show ?thesis
    using assms by simp
next
  case False
  then show ?thesis
    using rne_bounds(2) [of x] by linarith
qed

lemma rne_pos:
  assumes "1 \<le> x"
  shows "0 < rne x"
proof -
  have "(0 :: real) < of_int (rne x)"
    using rne_bounds(1) [of x] assms by linarith
  then show ?thesis
    by simp
qed

lemma f64_half_exact: "1 / 2 ^ 1021 \<le> \<bar>m\<bar> \<Longrightarrow> f64_half m = m / 2"
  by (simp add: f64_half_def)

lemma f64_half_nonneg: "0 \<le> m \<Longrightarrow> 0 \<le> f64_half m"
  by (simp add: f64_half_def rne_nonneg)

lemma f64_half_le:
  assumes "0 \<le> m"
  shows "f64_half m \<le> m"
proof (cases "1 / 2 ^ 1021 \<le> \<bar>m\<bar>")
  case True
  then show ?thesis
    using assms by (simp add: f64_half_def)
next
  case False
  have "of_int (rne (m * 2 ^ 1073)) \<le> 2 * (m * 2 ^ 1073)"
    using assms by (intro rne_le_double) simp
  also have "\<dots> = m * 2 ^ 1074"
    by simp
  finally have "of_int (rne (m * 2 ^ 1073)) / 2 ^ 1074 \<le> m"
    by (simp add: pos_divide_le_eq)
  then show ?thesis
    using False by (simp add: f64_half_def)
qed

lemma f64_half_pos:
  assumes "1 / 2 ^ 1073 \<le> m"
  shows "0 < f64_half m"
proof (cases "1 / 2 ^ 1021 \<le> \<bar>m\<bar>")
  case True
  have "0 < m"
    using assms by (rule less_le_trans [rotated]) simp
  then show ?thesis
    using True by (simp add: f64_half_def)
next
  case False
  have "1 \<le> m * 2 ^ 1073"
    using assms by (simp add: pos_divide_le_eq)
  then have "0 < rne (m * 2 ^ 1073)"
    by (rule rne_pos)
  then show ?thesis
    using False by (simp add: f64_half_def)
qed

lemma f64_half_smallest: "f64_half (1 / 2 ^ 1074) = 0"
proof -
  have small: "\<not> 1 / 2 ^ 1021 \<le> \<bar>1 / 2 ^ 1074 :: real\<bar>"
    by simp
  have "(1 / 2 ^ 1074 :: real) * 2 ^ 1073 = 1 / 2"
    by simp
  moreover have "rne (1 / 2) = 0"
    by (simp add: rne_def)
  ultimately show ?thesis
    using small by (simp add: f64_half_def)
qed

text \<open>
  \<open>solve_bellman_f64\<close> is \<open>solve_bellman\<close> with the optimizer given its lower bound
  from the double's halving.
\<close>

lemma loop_im_body_f64_bridge:
  "loop_im_body_f64 U I CO w par ip im cv = loop_im_body U I (f64_bracket CO) w par ip im cv"
  by (simp add: loop_im_body_f64_def loop_im_body_def opt_bellman_def f64_bracket_def Let_def
      split: prod.splits option.splits)

lemma loop_im_f64_bridge:
  "loop_im_f64 U I CO w par ip ims cv = loop_im U I (f64_bracket CO) w par ip ims cv"
  by (induction ims arbitrary: cv) (simp_all add: loop_im_body_f64_bridge split: outcome.splits)

lemma loop_ip_f64_bridge:
  "loop_ip_f64 U I CO w par ims ips cv = loop_ip U I (f64_bracket CO) w par ims ips cv"
  by (induction ips arbitrary: cv)
    (simp_all add: loop_ip_body_f64_def loop_ip_body_def loop_im_f64_bridge
      split: outcome.splits option.splits)

lemma solve_bellman_f64_bridge:
  "solve_bellman_f64 U I CO t s par = solve_bellman U I (f64_bracket CO) t s par"
  by (simp add: solve_bellman_f64_def solve_bellman_def solve_bellman_in_order_def
      loop_ip_f64_bridge split: option.splits)

text \<open>Where every entry of \<open>grid_m\<close> is halved exactly, the two solvers agree.\<close>

lemma loop_im_body_f64_exact:
  assumes "\<forall>m \<in> set (grid_m par). f64_half m = m / 2"
  shows "loop_im_body_f64 U I CO w par ip im cv = loop_im_body U I CO w par ip im cv"
proof (cases "im < length (grid_m par)")
  case True
  then have h: "f64_half (grid_m par ! im) = grid_m par ! im / 2"
    using assms by simp
  show ?thesis
    by (simp add: loop_im_body_f64_def loop_im_body_def getitem_def Let_def h True
        split: prod.splits)
next
  case False
  then show ?thesis
    by (simp add: loop_im_body_f64_def loop_im_body_def getitem_def split: prod.splits)
qed

lemma solve_bellman_f64_exact:
  assumes "\<forall>m \<in> set (grid_m par). f64_half m = m / 2"
  shows "solve_bellman_f64 U I CO t s par = solve_bellman U I CO t s par"
proof -
  have im: "loop_im_f64 U I CO w par ip ims cv = loop_im U I CO w par ip ims cv"
    for w ip ims cv
    by (induction ims arbitrary: cv)
      (simp_all add: loop_im_body_f64_exact [OF assms] split: outcome.splits)
  have "loop_ip_f64 U I CO w par ims ips cv = loop_ip U I CO w par ims ips cv"
    for w ims ips cv
    by (induction ips arbitrary: cv)
      (simp_all add: loop_ip_body_f64_def loop_ip_body_def im
        split: outcome.splits option.splits)
  then show ?thesis
    by (simp add: solve_bellman_f64_def solve_bellman_def solve_bellman_in_order_def
        split: option.splits)
qed

subsection \<open>The concrete instance, run\<close>

lemma example_run:
  "solve_bellman example_utility example_interp example_optimizer 0 example_sol example_par
     = Done example_result"
  by (simp add: solve_bellman_def solve_bellman_in_order_def example_par_def example_sol_def
      example_result_def range_list_simps py_index_def loop_ip_body_def loop_im_body_def
      getitem_def getitem2_def setitem2_def fmin_def opt_bellman_def obj_bellman_def
      example_optimizer_def example_utility_def example_interp_def store_slices_def Let_def)

lemma example_run2:
  "solve_bellman example_utility example_interp example_optimizer (- 1) example_sol2 example_par
     = Done example_result2"
  by (simp add: solve_bellman_def solve_bellman_in_order_def example_par_def example_sol2_def
      example_result2_def range_list_simps py_index_def loop_ip_body_def loop_im_body_def
      getitem_def getitem2_def setitem2_def fmin_def opt_bellman_def obj_bellman_def
      example_optimizer_def example_utility_def example_interp_def store_slices_def Let_def)

lemma example_run3:
  "solve_bellman_in_order example_utility example_interp example_optimizer [0] [2, 0, 1] (- 1)
     example_sol2 example_par2 = Done example_result3"
  by (simp add: solve_bellman_in_order_def example_par2_def example_sol2_def
      example_result3_def py_index_def loop_ip_body_def loop_im_body_def
      getitem_def getitem2_def setitem2_def fmin_def opt_bellman_def obj_bellman_def
      example_optimizer_def example_utility_def example_interp_def store_slices_def Let_def)

lemma example_run_reordered:
  "solve_bellman_in_order example_utility example_interp example_optimizer [0] [1, 2, 0] 0
     example_sol example_par = Done example_result"
  by (simp add: solve_bellman_in_order_def example_par_def example_sol_def
      example_result_def py_index_def loop_ip_body_def loop_im_body_def
      getitem_def getitem2_def setitem2_def fmin_def opt_bellman_def obj_bellman_def
      example_optimizer_def example_utility_def example_interp_def store_slices_def Let_def)

lemma example_run_f64:
  "solve_bellman_f64 example_utility example_interp example_optimizer 0 example_sol example_par
     = Done example_result"
proof -
  have "\<forall>m \<in> set (grid_m example_par). f64_half m = m / 2"
    by (simp add: example_par_def f64_half_exact)
  then show ?thesis
    using example_run by (simp add: solve_bellman_f64_exact)
qed

lemma f64_min_pos: "0 < f64_min"
  by (simp add: f64_min_def)

lemma f64_half_min: "f64_half f64_min = 0"
  unfolding f64_min_def by (rule f64_half_smallest)

lemma lower_end_optimizer_in_bracket:
  "\<forall>a b e m w. a \<le> b \<longrightarrow>
     a \<le> opt_bellman U I lower_end_optimizer a b e m w par \<and>
     opt_bellman U I lower_end_optimizer a b e m w par \<le> b"
  by (simp add: opt_bellman_def lower_end_optimizer_def)

lemma example_slices:
  "py_getitem (sol_c example_result) 0 = Some [[1, 5, 10]]"
  "py_getitem (sol_v example_result) 0 = Some [[3, 11, 21]]"
  by (simp_all add: py_getitem_def py_index_def example_result_def)

lemma example_bounds:
  "int 0 < Np example_par" "int 0 < Nm example_par" "int 1 < Nm example_par"
  "int 2 < Nm example_par"
  by (simp_all add: example_par_def)

text \<open>What the collaborators of the instance read of their arguments.\<close>

lemma example_utility_local:
  "\<forall>x p q. par.more p = par.more q \<longrightarrow> example_utility x p = example_utility x q"
  by (simp add: example_utility_def)

lemma example_utility_ignores_grid_p:
  "\<forall>x p g. example_utility x (p\<lparr>grid_p := g\<rparr>) = example_utility x p"
  by (simp add: example_utility_def)

lemma example_optimizer_ext:
  "\<forall>obj a b e m w p q. (\<forall>x. obj x m w p = obj x m w q) \<longrightarrow>
     example_optimizer obj a b e m w p = example_optimizer obj a b e m w q"
  by (simp add: example_optimizer_def)






section \<open>The objective\<close>

text \<open>
  C1.  For every consumption, cash-on-hand, continuation-value row and parameter
  object, \<open>obj_bellman\<close> returns the negation of the utility of the consumption
  plus the interpolation of the row on \<open>par.grid_a\<close> at \<open>m - c\<close>.
\<close>

theorem obj_bellman_value:
  "obj_bellman utility_func interp_1d c m interp_w par =
     - (utility_func c par + interp_1d (grid_a par) interp_w (m - c))"
  by (simp add: obj_bellman_def)


section \<open>Properties of the solver\<close>

text \<open>
  In the theorems below \<open>c'\<close> and \<open>v'\<close> are \<open>sol.c[t]\<close> and \<open>sol.v[t]\<close> as a call
  that returned has left them, and \<open>(ip, im)\<close> ranges over \<open>[0, Np) \<times> [0, Nm)\<close>.
\<close>

text \<open>
  C2.  After \<open>solve_bellman\<close> returns, the stored value at every \<open>(ip, im)\<close> is the
  negated objective at the stored consumption:
  \<open>sol.v[t][ip, im] = - obj_bellman(sol.c[t][ip, im], par.grid_m[im], sol.w[ip], par)\<close>.
\<close>

theorem value_recomputed_from_consumption:
  assumes "solve_bellman U I CO t s par = Done s'"
    and "py_getitem (sol_c s') t = Some c'"
    and "py_getitem (sol_v s') t = Some v'"
    and "int ip < Np par" and "int im < Nm par"
  shows "v' ! ip ! im =
    - obj_bellman U I (c' ! ip ! im) (grid_m par ! im) (sol_w s' ! ip) par"
  using solve_bellman_c_cell(1) [OF assms(1,2,4,5)] solve_bellman_v_cell [OF assms(1,3,4,5)]
    solve_bellman_keeps_w [OF assms(1)]
  by (simp add: cell_v_def)

theorem value_recomputed_from_consumption_witness:
  "solve_bellman example_utility example_interp example_optimizer 0 example_sol example_par
     = Done example_result \<and>
   py_getitem (sol_c example_result) 0 = Some [[1, 5, 10]] \<and>
   py_getitem (sol_v example_result) 0 = Some [[3, 11, 21]] \<and>
   int 0 < Np example_par \<and> int 2 < Nm example_par \<and>
   [[3, 11, 21]] ! 0 ! 2 =
     - obj_bellman example_utility example_interp ([[1, 5, 10]] ! 0 ! 2)
         (grid_m example_par ! 2) (sol_w example_result ! 0) example_par"
  using value_recomputed_from_consumption
      [OF example_run example_slices example_bounds(1,4)]
    example_run example_slices example_bounds(1,4)
  by simp



text \<open>
  C4.  With \<open>m / 2\<close> as the double computes it: if every entry of \<open>par.grid_m\<close> is
  positive and the optimizer returns a point of its bracket whenever the lower
  bound is at most the upper bound, then \<open>0 \<le> sol.c[t][ip, im] \<le> par.grid_m[im]\<close>
  at every \<open>(ip, im)\<close>, and \<open>0 < sol.c[t][ip, im]\<close> wherever \<open>par.grid_m[im]\<close> is at
  least \<open>2^-1073\<close>, that is for every positive double but the smallest.
\<close>

theorem consumption_bounds_f64:
  assumes run: "solve_bellman_f64 U I CO t s par = Done s'"
    and c': "py_getitem (sol_c s') t = Some c'"
    and ip: "int ip < Np par" and im: "int im < Nm par"
    and positive: "\<forall>x \<in> set (grid_m par). 0 < x"
    and bracket: "\<forall>a b e m w. a \<le> b \<longrightarrow>
           a \<le> opt_bellman U I CO a b e m w par \<and> opt_bellman U I CO a b e m w par \<le> b"
  shows "0 \<le> c' ! ip ! im \<and> c' ! ip ! im \<le> grid_m par ! im \<and>
    (1 / 2 ^ 1073 \<le> grid_m par ! im \<longrightarrow> 0 < c' ! ip ! im)"
proof -
  have run': "solve_bellman U I (f64_bracket CO) t s par = Done s'"
    using run by (simp add: solve_bellman_f64_bridge)
  note cells = solve_bellman_c_cell [OF run' c' ip im]
  define m where "m = grid_m par ! im"
  define lo where "lo = fmin (f64_half m) (1 / 10 ^ 8)"
  have "m \<in> set (grid_m par)"
    using cells(2) by (simp add: m_def)
  then have m: "0 < m"
    using positive by blast
  have lo: "0 \<le> lo" "lo \<le> m"
    using m f64_half_nonneg [of m] f64_half_le [of m] by (simp_all add: lo_def fmin_def min_def)
  have pos: "0 < lo" if "1 / 2 ^ 1073 \<le> m"
    using f64_half_pos [OF that] by (simp add: lo_def fmin_def)
  have "c' ! ip ! im = opt_bellman U I CO lo m (tol par) m (sol_w s ! ip) par"
    using cells(1) by (simp add: cell_c_def opt_bellman_def f64_bracket_def lo_def m_def)
  moreover have "lo \<le> opt_bellman U I CO lo m (tol par) m (sol_w s ! ip) par \<and>
      opt_bellman U I CO lo m (tol par) m (sol_w s ! ip) par \<le> m"
    using bracket lo(2) by blast
  ultimately show ?thesis
    using lo(1) pos by (auto simp: m_def)
qed

theorem consumption_bounds_f64_witness:
  "solve_bellman_f64 example_utility example_interp example_optimizer 0 example_sol example_par
     = Done example_result \<and>
   py_getitem (sol_c example_result) 0 = Some [[1, 5, 10]] \<and>
   int 0 < Np example_par \<and> int 2 < Nm example_par \<and>
   (0 :: real) \<le> [[1, 5, 10]] ! 0 ! 2 \<and> [[1, 5, 10]] ! 0 ! 2 \<le> grid_m example_par ! 2 \<and>
   1 / 2 ^ 1073 \<le> grid_m example_par ! 2 \<and> (0 :: real) < [[1, 5, 10]] ! 0 ! 2"
proof -
  have positive: "\<forall>x \<in> set (grid_m example_par). 0 < x"
    by (simp add: example_par_def)
  have bracket: "\<forall>a b e m w. a \<le> b \<longrightarrow>
      a \<le> opt_bellman example_utility example_interp example_optimizer a b e m w example_par \<and>
      opt_bellman example_utility example_interp example_optimizer a b e m w example_par \<le> b"
    by (simp add: opt_bellman_def example_optimizer_def)
  have big: "1 / 2 ^ 1073 \<le> grid_m example_par ! 2"
    by (simp add: example_par_def)
  from consumption_bounds_f64
    [OF example_run_f64 example_slices(1) example_bounds(1,4) positive bracket]
    example_run_f64 example_slices(1) example_bounds(1,4) big
  show ?thesis by simp
qed

text \<open>
  C4, where strict positivity fails: at the smallest positive double \<open>m / 2\<close> is
  \<open>0.0\<close>, the bracket is \<open>[0, m]\<close> with \<open>0 < m\<close>, and the optimizer that returns the
  lower end of its bracket (\<open>lower_end_optimizer_in_bracket\<close>) stores the
  consumption \<open>0\<close>.
\<close>

theorem zero_consumption_at_smallest_double:
  "solve_bellman_f64 example_utility example_interp lower_end_optimizer 0
     smallest_sol smallest_par = Done smallest_result \<and>
   grid_m smallest_par ! 0 = 1 / 2 ^ 1074 \<and>
   0 < grid_m smallest_par ! 0 \<and>
   fmin (f64_half (grid_m smallest_par ! 0)) (1 / 10 ^ 8) \<noteq> grid_m smallest_par ! 0 \<and>
   sol_c smallest_result ! 0 ! 0 ! 0 = 0"
proof -
  have "solve_bellman_f64 example_utility example_interp lower_end_optimizer 0
     smallest_sol smallest_par = Done smallest_result"
    by (simp add: solve_bellman_f64_def smallest_par_def smallest_sol_def smallest_result_def
        range_list_simps py_index_def loop_ip_body_f64_def loop_im_body_f64_def
        getitem_def getitem2_def setitem2_def fmin_def opt_bellman_def obj_bellman_def
        lower_end_optimizer_def example_utility_def example_interp_def store_slices_def
        f64_half_min)
  moreover have "grid_m smallest_par ! 0 = 1 / 2 ^ 1074"
    by (simp add: smallest_par_def f64_min_def)
  moreover have "0 < grid_m smallest_par ! 0"
    using f64_min_pos by (simp add: smallest_par_def)
  moreover have "fmin (f64_half (grid_m smallest_par ! 0)) (1 / 10 ^ 8) \<noteq> grid_m smallest_par ! 0"
    using f64_min_pos by (simp add: smallest_par_def f64_half_min fmin_def)
  moreover have "sol_c smallest_result ! 0 ! 0 ! 0 = 0"
    by (simp add: smallest_result_def)
  ultimately show ?thesis
    by blast
qed

text \<open>
  C5.  \<open>solve_bellman\<close> writes only to the slices \<open>sol.c[t]\<close> and \<open>sol.v[t]\<close>: whether
  the call returns or raises, \<open>sol.w\<close> is as before, \<open>sol.c\<close> and \<open>sol.v\<close> have as
  many slices as before, and every slice other than the one \<open>t\<close> designates is
  as before.  (\<open>t\<close> designates a slice as Python indexing does, so \<open>t = -1\<close> is the
  last one.)  \<open>par\<close> is an argument that no definition above updates or returns:
  the source has no assignment to it.
\<close>

theorem solve_bellman_frame:
  assumes "s' = final (solve_bellman U I CO t s par)"
  shows "sol_w s' = sol_w s \<and>
    length (sol_c s') = length (sol_c s) \<and> length (sol_v s') = length (sol_v s) \<and>
    (\<forall>k. py_index (sol_c s) t \<noteq> Some k \<longrightarrow> sol_c s' ! k = sol_c s ! k) \<and>
    (\<forall>k. py_index (sol_v s) t \<noteq> Some k \<longrightarrow> sol_v s' ! k = sol_v s ! k)"
proof (rule solve_final_cases [of U I CO "range_list (Np par)" "range_list (Nm par)" t s par])
  assume "final (solve_bellman_in_order U I CO (range_list (Np par)) (range_list (Nm par))
      t s par) = s"
  then show ?thesis
    using assms by (simp add: solve_bellman_def)
next
  fix tc tv c' v'
  assume "py_index (sol_c s) t = Some tc" "py_index (sol_v s) t = Some tv"
    "final (solve_bellman_in_order U I CO (range_list (Np par)) (range_list (Nm par))
       t s par) = s\<lparr>sol_v := (sol_v s)[tv := v'], sol_c := (sol_c s)[tc := c']\<rparr>"
  then show ?thesis
    using assms by (auto simp: solve_bellman_def)
qed

theorem solve_bellman_frame_witness:
  "example_result2 =
     final (solve_bellman example_utility example_interp example_optimizer (- 1)
       example_sol2 example_par) \<and>
   sol_w example_result2 = sol_w example_sol2 \<and>
   length (sol_c example_result2) = length (sol_c example_sol2) \<and>
   length (sol_v example_result2) = length (sol_v example_sol2) \<and>
   py_index (sol_c example_sol2) (- 1) \<noteq> Some 0 \<and>
   sol_c example_result2 ! 0 = sol_c example_sol2 ! 0 \<and>
   py_index (sol_v example_sol2) (- 1) \<noteq> Some 0 \<and>
   sol_v example_result2 ! 0 = sol_v example_sol2 ! 0"
proof -
  have r: "example_result2 =
     final (solve_bellman example_utility example_interp example_optimizer (- 1)
       example_sol2 example_par)"
    by (simp add: example_run2)
  have i: "py_index (sol_c example_sol2) (- 1) \<noteq> Some 0"
    "py_index (sol_v example_sol2) (- 1) \<noteq> Some 0"
    by (simp_all add: py_index_def example_sol2_def)
  from solve_bellman_frame [OF r] r i show ?thesis
    by blast
qed



subsection \<open>Running twice\<close>

lemma matrix_eqI:
  assumes shape: "map length a = map length b" and cells: "\<forall>i j. a ! i ! j = b ! i ! j"
  shows "a = (b :: matrix)"
proof (rule nth_equalityI)
  show len: "length a = length b"
    using shape by (metis length_map)
  fix i assume i: "i < length a"
  have "length (a ! i) = length (b ! i)"
    using shape i len by (metis nth_map)
  then show "a ! i = b ! i"
    using cells by (simp add: list_eq_iff_nth_eq)
qed

text \<open>A loop that has completed changes nothing when it is run again on its result.\<close>

lemma loop_ip_again:
  assumes first: "loop_ip U I CO w par ims ips (c, v) = Done (c', v')"
  shows "loop_ip U I CO w par ims ips (c', v') = Done (c', v')"
proof -
  note F = loop_ip_Done [OF first]
  have shape: "map length c' = map length c" "map length v' = map length v"
    using F by simp_all
  have "row_ok w par c' v' ims i = row_ok w par c v ims i" for i
    by (rule row_ok_update [OF shape])
  then have "\<forall>i \<in> set ips. row_ok w par c' v' ims i"
    using F by simp
  from loop_ip_completes [OF this] obtain c2 v2 where
    second: "loop_ip U I CO w par ims ips (c', v') = Done (c2, v2)"
    by (metis surj_pair)
  note S = loop_ip_Done [OF second]
  have "\<forall>i j. c2 ! i ! j = c' ! i ! j"
  proof (intro allI)
    fix i j
    have "c2 ! i ! j =
        (if i \<in> set ips \<and> j \<in> set ims then cell_c U I CO w par i j else c' ! i ! j)"
      using S by blast
    moreover have "c' ! i ! j =
        (if i \<in> set ips \<and> j \<in> set ims then cell_c U I CO w par i j else c ! i ! j)"
      using F by blast
    ultimately show "c2 ! i ! j = c' ! i ! j"
      by simp
  qed
  moreover have "map length c2 = map length c'"
    using S by simp
  ultimately have c2: "c2 = c'"
    by (rule matrix_eqI [rotated])
  have "\<forall>i j. v2 ! i ! j = v' ! i ! j"
  proof (intro allI)
    fix i j
    have "v2 ! i ! j =
        (if i \<in> set ips \<and> j \<in> set ims then cell_v U I CO w par i j else v' ! i ! j)"
      using S by blast
    moreover have "v' ! i ! j =
        (if i \<in> set ips \<and> j \<in> set ims then cell_v U I CO w par i j else v ! i ! j)"
      using F by blast
    ultimately show "v2 ! i ! j = v' ! i ! j"
      by simp
  qed
  moreover have "map length v2 = map length v'"
    using S by simp
  ultimately have v2: "v2 = v'"
    by (rule matrix_eqI [rotated])
  show ?thesis
    using second c2 v2 by simp
qed

lemma solve_in_order_again:
  assumes first: "solve_bellman_in_order U I CO ips ims t s par = Done s'"
  shows "solve_bellman_in_order U I CO ips ims t s' par = Done s'"
proof -
  from first obtain tc tv c' v' where
    tc: "py_index (sol_c s) t = Some tc" and tv: "py_index (sol_v s) t = Some tv" and
    l: "loop_ip U I CO (sol_w s) par ims ips (sol_c s ! tc, sol_v s ! tv) = Done (c', v')" and
    s': "s' = s\<lparr>sol_v := (sol_v s)[tv := v'], sol_c := (sol_c s)[tc := c']\<rparr>"
    by (rule solve_Done)
  have tc': "py_index (sol_c s') t = Some tc" and tv': "py_index (sol_v s') t = Some tv"
    using tc tv by (simp_all add: s' py_index_same_length [of "(sol_c s)[tc := c']" "sol_c s"]
        py_index_same_length [of "(sol_v s)[tv := v']" "sol_v s"])
  have slices: "sol_c s' ! tc = c'" "sol_v s' ! tv = v'"
    using py_index_less [OF tc] py_index_less [OF tv] by (simp_all add: s')
  have "loop_ip U I CO (sol_w s') par ims ips (sol_c s' ! tc, sol_v s' ! tv) = Done (c', v')"
    using loop_ip_again [OF l] by (simp add: slices) (simp add: s')
  moreover have "store_slices s' tc tv (c', v') = s'"
    by (simp add: store_slices_def s')
  ultimately show ?thesis
    by (simp add: solve_bellman_in_order_def tc' tv')
qed

text \<open>
  C7.  \<open>solve_bellman\<close> is deterministic: with the collaborators fixed (they are
  functions), two runs on identical \<open>(t, sol, par)\<close> give the same outcome, hence
  the same \<open>c[t]\<close> and \<open>v[t]\<close>; and a second run on the container as the first
  run left it returns that container unchanged, so no state of the first run
  enters the second.
\<close>

theorem solve_bellman_deterministic:
  assumes "t2 = t1" and "s2 = s1" and "par2 = par1"
  shows "solve_bellman U I CO t2 s2 par2 = solve_bellman U I CO t1 s1 par1 \<and>
    (\<forall>s'. solve_bellman U I CO t1 s1 par1 = Done s' \<longrightarrow>
       solve_bellman U I CO t2 s' par2 = Done s')"
  using assms solve_in_order_again [of U I CO _ _ t1 s1 par1]
  by (simp add: solve_bellman_def)

theorem solve_bellman_deterministic_witness:
  "solve_bellman example_utility example_interp example_optimizer 0 example_sol example_par
     = Done example_result \<and>
   solve_bellman example_utility example_interp example_optimizer 0 example_result example_par
     = Done example_result"
  using solve_bellman_deterministic [OF refl refl refl,
      of example_utility example_interp example_optimizer 0 example_sol example_par]
    example_run
  by simp

subsection \<open>What a cell depends on\<close>

text \<open>
  A completed run, with its iterations in another order, is the run of
  \<open>solve_bellman\<close>: only the sets of indices matter.
\<close>

lemma loop_ip_any_order:
  assumes ips: "set ips' = set ips" and ims: "set ims' = set ims"
    and first: "loop_ip U I CO w par ims ips (c, v) = Done (c', v')"
  shows "loop_ip U I CO w par ims' ips' (c, v) = Done (c', v')"
proof -
  note F = loop_ip_Done [OF first]
  have "\<forall>i \<in> set ips'. row_ok w par c v ims' i"
    using F ips ims by (simp add: row_ok_def)
  from loop_ip_completes [OF this] obtain c2 v2 where
    second: "loop_ip U I CO w par ims' ips' (c, v) = Done (c2, v2)"
    by (metis surj_pair)
  note S = loop_ip_Done [OF second]
  have "\<forall>i j. c2 ! i ! j = c' ! i ! j"
  proof (intro allI)
    fix i j
    have "c2 ! i ! j =
        (if i \<in> set ips' \<and> j \<in> set ims' then cell_c U I CO w par i j else c ! i ! j)"
      using S by blast
    moreover have "c' ! i ! j =
        (if i \<in> set ips \<and> j \<in> set ims then cell_c U I CO w par i j else c ! i ! j)"
      using F by blast
    ultimately show "c2 ! i ! j = c' ! i ! j"
      by (simp add: ips ims)
  qed
  moreover have "map length c2 = map length c'"
    using S F by simp
  ultimately have c2: "c2 = c'"
    by (rule matrix_eqI [rotated])
  have "\<forall>i j. v2 ! i ! j = v' ! i ! j"
  proof (intro allI)
    fix i j
    have "v2 ! i ! j =
        (if i \<in> set ips' \<and> j \<in> set ims' then cell_v U I CO w par i j else v ! i ! j)"
      using S by blast
    moreover have "v' ! i ! j =
        (if i \<in> set ips \<and> j \<in> set ims then cell_v U I CO w par i j else v ! i ! j)"
      using F by blast
    ultimately show "v2 ! i ! j = v' ! i ! j"
      by (simp add: ips ims)
  qed
  moreover have "map length v2 = map length v'"
    using S F by simp
  ultimately have v2: "v2 = v'"
    by (rule matrix_eqI [rotated])
  show ?thesis
    using second c2 v2 by simp
qed

lemma solve_bellman_any_order:
  assumes ips: "set ips = set (range_list (Np par))"
    and ims: "set ims = set (range_list (Nm par))"
    and run: "solve_bellman_in_order U I CO ips ims t s par = Done s'"
  shows "solve_bellman U I CO t s par = Done s'"
proof -
  from run obtain tc tv c' v' where
    tc: "py_index (sol_c s) t = Some tc" and tv: "py_index (sol_v s) t = Some tv" and
    l: "loop_ip U I CO (sol_w s) par ims ips (sol_c s ! tc, sol_v s ! tv) = Done (c', v')" and
    s': "s' = s\<lparr>sol_v := (sol_v s)[tv := v'], sol_c := (sol_c s)[tc := c']\<rparr>"
    by (rule solve_Done)
  have "loop_ip U I CO (sol_w s) par (range_list (Nm par)) (range_list (Np par))
      (sol_c s ! tc, sol_v s ! tv) = Done (c', v')"
    by (rule loop_ip_any_order [OF ips [symmetric] ims [symmetric] l])
  then show ?thesis
    by (simp add: solve_bellman_def solve_bellman_in_order_def tc tv s' store_slices_def)
qed

lemma cell_c_cong:
  assumes U_local: "\<forall>x p q. par.more p = par.more q \<longrightarrow> U x p = U x q"
    and CO_ext: "\<forall>obj a b e m w p q.
      (\<forall>x. obj x m w p = obj x m w q) \<longrightarrow> CO obj a b e m w p = CO obj a b e m w q"
    and m: "grid_m par1 ! im1 = grid_m par2 ! im2"
    and w: "w1 ! ip1 = w2 ! ip2"
    and e: "tol par1 = tol par2"
    and a: "grid_a par1 = grid_a par2"
    and u: "par.more par1 = par.more par2"
  shows "cell_c U I CO w1 par1 ip1 im1 = cell_c U I CO w2 par2 ip2 im2"
    and "cell_v U I CO w1 par1 ip1 im1 = cell_v U I CO w2 par2 ip2 im2"
proof -
  have obj: "obj_bellman U I x m' w' par1 = obj_bellman U I x m' w' par2" for x m' w'
    using U_local [rule_format, OF u, of x] a by (simp add: obj_bellman_def)
  then have "CO (obj_bellman U I) lo hi e' m' w' par1 = CO (obj_bellman U I) lo hi e' m' w' par2"
    for lo hi e' m' w'
    using CO_ext by blast
  then show c: "cell_c U I CO w1 par1 ip1 im1 = cell_c U I CO w2 par2 ip2 im2"
    by (simp add: cell_c_def opt_bellman_def m w e)
  show "cell_v U I CO w1 par1 ip1 im1 = cell_v U I CO w2 par2 ip2 im2"
    by (simp add: cell_v_def c obj m w)
qed

text \<open>
  C8.  Take two completed runs, in any orders \<open>ips\<close>, \<open>ims\<close> of the iterations, on
  any containers and parameter objects, and a cell of each that its run has
  computed.  If the two cells have the same \<open>par.grid_m[im]\<close>, the same row
  \<open>sol.w[ip]\<close>, and the runs the same \<open>par.tol\<close>, \<open>par.grid_a\<close> and utility
  parameters, then the cells hold the same consumption and the same value:
  nothing else is read (other cells, what the arrays held before, \<open>grid_p\<close>, the
  other rows of \<open>sol.w\<close>), and the order of the iterations does not matter: a
  run whose orders are rearrangements of \<open>range(Np)\<close> and \<open>range(Nm)\<close> ends in the
  container that \<open>solve_bellman\<close> returns.
  Assumed of the collaborators: \<open>utility.func\<close> reads of \<open>par\<close> its own parameters
  only, and the optimizer uses its payload only through the objective.
\<close>

theorem cell_depends_on_own_inputs_only:
  assumes U_local: "\<forall>x p q. par.more p = par.more q \<longrightarrow> U x p = U x q"
    and CO_ext: "\<forall>obj a b e m w p q.
      (\<forall>x. obj x m w p = obj x m w q) \<longrightarrow> CO obj a b e m w p = CO obj a b e m w q"
    and run1: "solve_bellman_in_order U I CO ips1 ims1 t1 s1 par1 = Done s1'"
    and run2: "solve_bellman_in_order U I CO ips2 ims2 t2 s2 par2 = Done s2'"
    and c1: "py_getitem (sol_c s1') t1 = Some c1" and v1: "py_getitem (sol_v s1') t1 = Some v1"
    and c2: "py_getitem (sol_c s2') t2 = Some c2" and v2: "py_getitem (sol_v s2') t2 = Some v2"
    and cell1: "ip1 \<in> set ips1" "im1 \<in> set ims1"
    and cell2: "ip2 \<in> set ips2" "im2 \<in> set ims2"
    and same: "grid_m par1 ! im1 = grid_m par2 ! im2" "sol_w s1 ! ip1 = sol_w s2 ! ip2"
      "tol par1 = tol par2" "grid_a par1 = grid_a par2" "par.more par1 = par.more par2"
  shows "c1 ! ip1 ! im1 = c2 ! ip2 ! im2 \<and> v1 ! ip1 ! im1 = v2 ! ip2 ! im2 \<and>
    (set ips1 = set (range_list (Np par1)) \<and> set ims1 = set (range_list (Nm par1)) \<longrightarrow>
       solve_bellman U I CO t1 s1 par1 = Done s1')"
proof -
  have 1: "c1 ! ip1 ! im1 = cell_c U I CO (sol_w s1) par1 ip1 im1 \<and>
      v1 ! ip1 ! im1 = cell_v U I CO (sol_w s1) par1 ip1 im1"
    by (rule solve_Done_cells [OF run1]) (use c1 v1 cell1 in simp)
  have 2: "c2 ! ip2 ! im2 = cell_c U I CO (sol_w s2) par2 ip2 im2 \<and>
      v2 ! ip2 ! im2 = cell_v U I CO (sol_w s2) par2 ip2 im2"
    by (rule solve_Done_cells [OF run2]) (use c2 v2 cell2 in simp)
  show ?thesis
    using 1 2 cell_c_cong [OF U_local CO_ext same, of I] solve_bellman_any_order [OF _ _ run1]
    by simp
qed

theorem cell_depends_on_own_inputs_only_witness:
  "solve_bellman_in_order example_utility example_interp example_optimizer [0] [1, 2, 0] 0
     example_sol example_par = Done example_result \<and>
   solve_bellman_in_order example_utility example_interp example_optimizer [0] [2, 0, 1] (- 1)
     example_sol2 example_par2 = Done example_result3 \<and>
   grid_m example_par ! 1 = grid_m example_par2 ! 2 \<and>
   sol_w example_sol ! 0 = sol_w example_sol2 ! 0 \<and>
   sol_c example_result ! 0 ! 0 ! 1 = sol_c example_result3 ! 1 ! 0 ! 2 \<and>
   sol_v example_result ! 0 ! 0 ! 1 = sol_v example_result3 ! 1 ! 0 ! 2 \<and>
   set [1, 2, 0] = set (range_list (Nm example_par)) \<and>
   solve_bellman example_utility example_interp example_optimizer 0 example_sol example_par
     = Done example_result"
proof -
  have slices: "py_getitem (sol_c example_result3) (- 1) = Some (sol_c example_result3 ! 1)"
    "py_getitem (sol_v example_result3) (- 1) = Some (sol_v example_result3 ! 1)"
    "py_getitem (sol_c example_result) 0 = Some (sol_c example_result ! 0)"
    "py_getitem (sol_v example_result) 0 = Some (sol_v example_result ! 0)"
    by (simp_all add: py_getitem_def py_index_def example_result3_def example_result_def)
  have same: "grid_m example_par ! 1 = grid_m example_par2 ! 2"
    "sol_w example_sol ! 0 = sol_w example_sol2 ! 0"
    "tol example_par = tol example_par2" "grid_a example_par = grid_a example_par2"
    "par.more example_par = par.more example_par2"
    by (simp_all add: example_par_def example_par2_def example_sol_def example_sol2_def)
  have cells: "(0 :: nat) \<in> set [0]" "(1 :: nat) \<in> set [1, 2, 0]"
    "(0 :: nat) \<in> set [0]" "(2 :: nat) \<in> set [2, 0, 1]"
    by simp_all
  have orders: "set [0] = set (range_list (Np example_par))"
    "set [1, 2, 0] = set (range_list (Nm example_par))"
    by (auto simp: example_par_def range_list_simps)
  from cell_depends_on_own_inputs_only
    [OF example_utility_local example_optimizer_ext example_run_reordered example_run3
      slices(3,4,1,2) cells same]
    example_run_reordered example_run3 same(1,2) orders
  show ?thesis by simp
qed

subsection \<open>Monotonicity\<close>



subsection \<open>The permanent-income grid\<close>

lemma loop_im_body_grid_p:
  assumes obj: "\<And>x m w. obj_bellman U I x m w (par\<lparr>grid_p := g\<rparr>) = obj_bellman U I x m w par"
    and opt: "\<And>a b e m w. opt_bellman U I CO a b e m w (par\<lparr>grid_p := g\<rparr>) =
      opt_bellman U I CO a b e m w par"
  shows "loop_im_body U I CO w (par\<lparr>grid_p := g\<rparr>) ip im cv = loop_im_body U I CO w par ip im cv"
  by (simp add: loop_im_body_def obj opt Let_def split: prod.splits option.splits)

lemma loop_im_grid_p:
  assumes "\<And>im cv. loop_im_body U I CO w (par\<lparr>grid_p := g\<rparr>) ip im cv =
      loop_im_body U I CO w par ip im cv"
  shows "loop_im U I CO w (par\<lparr>grid_p := g\<rparr>) ip ims cv = loop_im U I CO w par ip ims cv"
  by (induction ims arbitrary: cv) (simp_all add: assms split: outcome.splits)

lemma loop_ip_grid_p:
  assumes "\<And>ip cv. loop_ip_body U I CO w (par\<lparr>grid_p := g\<rparr>) ims ip cv =
      loop_ip_body U I CO w par ims ip cv"
  shows "loop_ip U I CO w (par\<lparr>grid_p := g\<rparr>) ims ips cv = loop_ip U I CO w par ims ips cv"
  by (induction ips arbitrary: cv) (simp_all add: assms split: outcome.splits)

text \<open>
  C10.  The values in \<open>par.grid_p\<close> are not used: replacing \<open>grid_p\<close> by a list of
  the same length leaves the outcome of \<open>solve_bellman\<close> as it was.  (The length
  matters: \<open>p = par.grid_p[ip]\<close> is read.)  Assumed of the collaborators:
  \<open>utility.func\<close> does not read \<open>par.grid_p\<close>, and the optimizer uses its payload
  only through the objective.
\<close>

theorem grid_p_values_not_used:
  assumes U_ignores: "\<forall>x p g. U x (p\<lparr>grid_p := g\<rparr>) = U x p"
    and CO_ext: "\<forall>obj a b e m w p q.
      (\<forall>x. obj x m w p = obj x m w q) \<longrightarrow> CO obj a b e m w p = CO obj a b e m w q"
    and len: "length g = length (grid_p par)"
  shows "solve_bellman U I CO t s (par\<lparr>grid_p := g\<rparr>) = solve_bellman U I CO t s par"
proof -
  have obj: "obj_bellman U I x m w (par\<lparr>grid_p := g\<rparr>) = obj_bellman U I x m w par" for x m w
    using U_ignores by (simp add: obj_bellman_def)
  then have opt: "opt_bellman U I CO a b e m w (par\<lparr>grid_p := g\<rparr>) =
      opt_bellman U I CO a b e m w par" for a b e m w
    unfolding opt_bellman_def using CO_ext by blast
  have im: "loop_im U I CO w (par\<lparr>grid_p := g\<rparr>) ip ims cv = loop_im U I CO w par ip ims cv"
    for w ip ims cv
    by (rule loop_im_grid_p) (rule loop_im_body_grid_p [OF obj opt])
  have "loop_ip_body U I CO w (par\<lparr>grid_p := g\<rparr>) ims ip cv =
      loop_ip_body U I CO w par ims ip cv" for w ims ip cv
    by (simp add: loop_ip_body_def getitem_def len im)
  then have "loop_ip U I CO w (par\<lparr>grid_p := g\<rparr>) ims ips cv =
      loop_ip U I CO w par ims ips cv" for w ims ips cv
    by (rule loop_ip_grid_p)
  then show ?thesis
    by (simp add: solve_bellman_def solve_bellman_in_order_def split: option.splits)
qed

theorem grid_p_values_not_used_witness:
  "length [42 :: real] = length (grid_p example_par) \<and>
   solve_bellman example_utility example_interp example_optimizer 0 example_sol
     (example_par\<lparr>grid_p := [42]\<rparr>) = Done example_result"
proof -
  have len: "length [42 :: real] = length (grid_p example_par)"
    by (simp add: example_par_def)
  from grid_p_values_not_used [OF example_utility_ignores_grid_p example_optimizer_ext len,
      of example_interp 0 example_sol]
    example_run len
  show ?thesis by simp
qed

end
